theory Spec2Isabelle
  imports Main "HOL-Library.Word" "HOL-Library.Sublist" "HOL-Library.AList" "HOL-Library.Multiset"
begin

section \<open>Data model (internal/orchestrator/models.go)\<close>

text \<open>
  \<^verbatim>\<open>StreamID\<close> and \<^verbatim>\<open>RenditionID\<close> are Go strings. \<^verbatim>\<open>Segment.Sequence\<close> is an
  \<^verbatim>\<open>int64\<close>: a 64-bit word read in two's complement (\<open>sint\<close>), whose \<open>+\<close> wraps.
  \<^verbatim>\<open>Segment.Duration\<close> is a \<^verbatim>\<open>float64\<close>; the model is polymorphic in the type \<open>'d\<close> of
  durations, and the operations of the Go runtime on it are parameters (see
  \<open>float_ops\<close> below). \<^verbatim>\<open>ReceivedAt\<close> is a clock reading, a natural number of ticks.
\<close>

type_synonym int64 = "64 word"
type_synonym StreamID = string
type_synonym RenditionID = string
type_synonym Time = nat

record 'd Segment =
  Sequence :: int64
  Duration :: 'd
  Path :: string
  ReceivedAt :: Time

text \<open>The signed reading of a segment's sequence number, the key of every comparison.\<close>

definition seqOf :: "'d Segment \<Rightarrow> int" where
  "seqOf s = sint (Sequence s)"

section \<open>Window selection (the two selectors of the service file)\<close>

text \<open>
  A Go slice expression \<^verbatim>\<open>segs[start:]\<close> panics unless \<open>0 \<le> start \<le> len(segs)\<close>.
\<close>

datatype panic = SliceBoundsOutOfRange

text \<open>
  Both window selectors run the same loop over a slice \<open>xs\<close>:
  \<^verbatim>\<open>for i := 0; i < len(xs); i++ {
       if i > 0 && xs[i].Sequence != xs[i-1].Sequence+1 { break }
       out = append(out, xs[i]) }\<close>
  \<open>scanLoop xs i out\<close> is the loop from index \<open>i\<close> with the segments collected so far.
  The addition is the wrapping addition of \<^verbatim>\<open>int64\<close>.
\<close>

function scanLoop :: "'d Segment list \<Rightarrow> nat \<Rightarrow> 'd Segment list \<Rightarrow> 'd Segment list" where
  "scanLoop xs i out =
     (if i < length xs then
        (if i > 0 \<and> Sequence (xs ! i) \<noteq> Sequence (xs ! (i - 1)) + 1 then out
         else scanLoop xs (i + 1) (out @ [xs ! i]))
      else out)"
  by pat_completeness auto
termination
  by (relation "measure (\<lambda>(xs, i, out). length xs - i)") auto

declare scanLoop.simps [simp del]

text \<open>
  \<^verbatim>\<open>contiguousSlidingWindow\<close>: the contiguous run from the start of the history, then
  its last \<open>windowSize\<close> elements. \<open>out[len(out)-windowSize:]\<close> is evaluated only when
  \<open>len(out) > windowSize > 0\<close>, so the slice expression is in range.
\<close>

definition contiguousSlidingWindow :: "'d Segment list \<Rightarrow> int \<Rightarrow> 'd Segment list" where
  "contiguousSlidingWindow segs windowSize =
     (if windowSize \<le> 0 \<or> length segs = 0 then []
      else
        let out = scanLoop segs 0 [] in
        if int (length out) > windowSize
        then drop (nat (int (length out) - windowSize)) out
        else out)"

text \<open>
  \<^verbatim>\<open>sort.Slice\<close> with the comparison of \<^verbatim>\<open>Sequence\<close> is a parameter \<open>sortSlice\<close> of the
  selector. \<open>sortsBySequence\<close> is what is used of it: the result is a permutation of
  the slice in ascending order of sequence, and a slice already in ascending order is
  left as it is. The first is the contract of \<^verbatim>\<open>sort.Slice\<close>, which is not stable:
  segments of equal sequence come in an order of the library's choosing. The second
  is what Go's pattern-defeating quicksort does on such a slice: it finds no pair out
  of order and moves nothing.
\<close>

definition sortsBySequence :: "('d Segment list \<Rightarrow> 'd Segment list) \<Rightarrow> bool" where
  "sortsBySequence sortSlice =
     (\<forall>xs. mset (sortSlice xs) = mset xs
           \<and> sorted (map seqOf (sortSlice xs))
           \<and> (sorted (map seqOf xs) \<longrightarrow> sortSlice xs = xs))"

text \<open>
  One such sort, the stable insertion sort, with which the examples are evaluated.
\<close>

definition stableSort :: "'d Segment list \<Rightarrow> 'd Segment list" where
  "stableSort xs = sort_key seqOf xs"

text \<open>
  \<^verbatim>\<open>contiguousVisibleSegments\<close>, the selector that \<^verbatim>\<open>GetPlaylist\<close> calls. It sorts the
  slice in place, takes \<^verbatim>\<open>segs[start:]\<close> and scans it. There is no guard on
  \<open>windowSize\<close>: the slice expression panics when \<open>start\<close> is out of range.
\<close>

definition contiguousVisibleSegments ::
    "('d Segment list \<Rightarrow> 'd Segment list) \<Rightarrow> 'd Segment list \<Rightarrow> int
      \<Rightarrow> panic + 'd Segment list" where
  "contiguousVisibleSegments sortSlice segs0 windowSize =
     (if length segs0 = 0 then Inr []
      else
        let segs = sortSlice segs0;
            start = (if int (length segs) > windowSize
                     then int (length segs) - windowSize else 0)
        in if start < 0 \<or> start > int (length segs) then Inl SliceBoundsOutOfRange
           else
             let windowed = drop (nat start) segs
             in Inr (scanLoop windowed 0 []))"

text \<open>
  The window size and the slice indices are Go \<^verbatim>\<open>int\<close>s, 64 bits wide on a 64-bit
  platform, and \<open>wrapInt\<close> is the wrap-around of such a number. The selectors are
  written on exact integers: the one subtraction they make, \<^verbatim>\<open>len(segs) - windowSize\<close>
  under \<^verbatim>\<open>len(segs) > windowSize\<close>, is exact for a window size that is not negative,
  and for a negative one it is out of the slice's range with and without the
  wrap-around (lemma \<open>start_wrap\<close>).
\<close>

definition wrapInt :: "int \<Rightarrow> int" where
  "wrapInt x = (x + 2 ^ 63) mod 2 ^ 64 - 2 ^ 63"

text \<open>
  The loop as a structural recursion, used in the proofs: \<open>scanLoop_run\<close> below shows
  that the loop above computes it.
\<close>

fun contiguousRun :: "'d Segment list \<Rightarrow> 'd Segment list" where
  "contiguousRun [] = []"
| "contiguousRun [x] = [x]"
| "contiguousRun (x # y # rest) =
     (if Sequence y \<noteq> Sequence x + 1 then [x] else x # contiguousRun (y # rest))"

section \<open>Playlist rendering (BuildLivePlaylist)\<close>

text \<open>
  The operations of the Go runtime on \<^verbatim>\<open>float64\<close> that the renderer uses, as parameters:
  \<open>f_gt a b\<close> is \<^verbatim>\<open>a > b\<close>, \<open>f_le a b\<close> is \<^verbatim>\<open>a <= b\<close>, \<open>f_ceil_int a\<close> is
  \<^verbatim>\<open>int(math.Ceil(a))\<close> and \<open>f_fmt1 a\<close> is \<^verbatim>\<open>fmt.Sprintf("%.1f", a)\<close>. The constant
  \<^verbatim>\<open>0.0\<close> is the \<open>0\<close> of the duration type.
\<close>

record 'd float_ops =
  f_gt :: "'d \<Rightarrow> 'd \<Rightarrow> bool"
  f_le :: "'d \<Rightarrow> 'd \<Rightarrow> bool"
  f_ceil_int :: "'d \<Rightarrow> int"
  f_fmt1 :: "'d \<Rightarrow> string"

definition digitChar :: "nat \<Rightarrow> char" where
  "digitChar n = ''0123456789'' ! (n mod 10)"

fun showNat :: "nat \<Rightarrow> string" where
  "showNat n = (if n < 10 then [digitChar n] else showNat (n div 10) @ [digitChar n])"

declare showNat.simps [simp del]

text \<open>The verb \<^verbatim>\<open>%d\<close> of \<^verbatim>\<open>fmt\<close>: decimal digits, with a minus sign for a negative number.\<close>

definition showInt :: "int \<Rightarrow> string" where
  "showInt i = (if i < 0 then ''-'' @ showNat (nat (- i)) else showNat (nat i))"

text \<open>
  An instance for the evaluation of examples: a duration given as a whole number of
  tenths of a second, so that \<open>25\<close> stands for \<^verbatim>\<open>2.5\<close>.
\<close>

definition tenths_ops :: "int float_ops" where
  "tenths_ops =
     \<lparr>f_gt = (\<lambda>a b. a > b),
      f_le = (\<lambda>a b. a \<le> b),
      f_ceil_int = (\<lambda>a. - ((- a) div 10)),
      f_fmt1 = (\<lambda>a. (if a < 0 then ''-'' else [])
                      @ showNat (nat \<bar>a\<bar> div 10) @ ''.'' @ showNat (nat \<bar>a\<bar> mod 10))\<rparr>"

text \<open>
  \<^verbatim>\<open>targetDurationFromSegments\<close>: the running maximum starts at \<^verbatim>\<open>0.0\<close>; a maximum
  that is not positive gives 1.
\<close>

definition targetDurationFromSegments ::
    "('d::zero) float_ops \<Rightarrow> 'd Segment list \<Rightarrow> int" where
  "targetDurationFromSegments ops segments =
     (let mx = foldl (\<lambda>m seg. if f_gt ops (Duration seg) m then Duration seg else m)
                 0 segments
      in if f_le ops mx 0 then 1 else f_ceil_int ops mx)"

definition ENDLIST :: string where
  "ENDLIST = ''#EXT-X-ENDLIST''"

text \<open>
  \<^verbatim>\<open>BuildLivePlaylist\<close>. \<^verbatim>\<open>segments[0]\<close> is read on the non-empty branch only.
\<close>

definition BuildLivePlaylist ::
    "('d::zero) float_ops \<Rightarrow> 'd Segment list \<Rightarrow> bool \<Rightarrow> string" where
  "BuildLivePlaylist ops segments ended =
     (let b = ''#EXTM3U\<newline>'' @ ''#EXT-X-VERSION:3\<newline>'' in
      case segments of
        [] \<Rightarrow>
          b @ ''#EXT-X-TARGETDURATION:1\<newline>'' @ ''#EXT-X-MEDIA-SEQUENCE:0\<newline>''
            @ (if ended then ENDLIST @ ''\<newline>'' else [])
      | seg0 # _ \<Rightarrow>
          let targetDuration = targetDurationFromSegments ops segments;
              mediaSequence = Sequence seg0
          in b @ (''#EXT-X-TARGETDURATION:'' @ showInt targetDuration @ ''\<newline>'')
               @ (''#EXT-X-MEDIA-SEQUENCE:'' @ showInt (sint mediaSequence)
                    @ ''\<newline>\<newline>'')
               @ concat (map (\<lambda>seg. (''#EXTINF:'' @ f_fmt1 ops (Duration seg) @ '',\<newline>'')
                                      @ Path seg @ ''\<newline>'') segments)
               @ (if ended then ENDLIST @ ''\<newline>'' else []))"

text \<open>
  What a reader of the playlist observes: its last line is the end marker, that is, the
  text ends with a newline, the marker and a newline.
\<close>

definition endsWithEndlist :: "string \<Rightarrow> bool" where
  "endsWithEndlist out = suffix (''\<newline>'' @ ENDLIST @ ''\<newline>'') out"

section \<open>Store and registry (InMemoryStore, internal/orchestrator/repository.go)\<close>

text \<open>
  Go maps are association lists here, read with \<open>map_of\<close> and written with
  \<open>AList.update\<close>; the order of the entries stands for the unspecified iteration order
  of a Go map, and every loop over a map in the source is insensitive to it. The store
  holds pointers to stream states, and a stream holds pointers to rendition states,
  each pointer in exactly one map slot: a mutation through a pointer is the update of
  that slot.
\<close>

record 'd RenditionState =
  ID :: RenditionID
  Segments :: "(int64 \<times> 'd Segment) list"
  Ended :: bool

record 'd StreamState =
  ID :: StreamID
  Renditions :: "(RenditionID \<times> 'd RenditionState) list"
  Ended :: bool

type_synonym 'd Store = "(StreamID \<times> 'd StreamState) list"

datatype error = ErrStreamEnded | ErrRenditionEnded

definition NewInMemoryStore :: "'d Store" where
  "NewInMemoryStore = []"

definition GetStream :: "'d Store \<Rightarrow> StreamID \<Rightarrow> 'd StreamState option" where
  "GetStream store sid = map_of store sid"

definition SetStream :: "'d Store \<Rightarrow> 'd StreamState \<Rightarrow> 'd Store" where
  "SetStream store st = AList.update (StreamState.ID st) st store"

definition ListStreamIDs :: "'d Store \<Rightarrow> StreamID list" where
  "ListStreamIDs store = map fst store"

definition getOrCreateStreamLocked ::
    "'d Store \<Rightarrow> StreamID \<Rightarrow> 'd Store \<times> 'd StreamState" where
  "getOrCreateStreamLocked store streamID =
     (case GetStream store streamID of
        Some stream \<Rightarrow> (store, stream)
      | None \<Rightarrow>
          let stream = \<lparr>StreamState.ID = streamID, Renditions = [], Ended = False\<rparr>
          in (SetStream store stream, stream))"

definition getOrCreateRenditionLocked ::
    "'d StreamState \<Rightarrow> RenditionID \<Rightarrow> 'd StreamState \<times> 'd RenditionState" where
  "getOrCreateRenditionLocked stream renditionID =
     (case map_of (Renditions stream) renditionID of
        Some rendition \<Rightarrow> (stream, rendition)
      | None \<Rightarrow>
          let rendition = \<lparr>RenditionState.ID = renditionID, Segments = [], Ended = False\<rparr>
          in (stream\<lparr>Renditions := AList.update renditionID rendition (Renditions stream)\<rparr>,
              rendition))"

text \<open>
  \<^verbatim>\<open>RegisterSegment\<close> returns the store and the error (\<open>None\<close> is \<^verbatim>\<open>nil\<close>). \<open>now\<close> is
  the reading of \<^verbatim>\<open>time.Now().UTC()\<close>.
\<close>

definition RegisterSegment ::
    "Time \<Rightarrow> 'd Store \<Rightarrow> StreamID \<Rightarrow> RenditionID \<Rightarrow> 'd Segment
      \<Rightarrow> 'd Store \<times> error option" where
  "RegisterSegment now store0 streamID renditionID seg =
     (let (store1, stream) = getOrCreateStreamLocked store0 streamID in
      if StreamState.Ended stream then (store1, Some ErrStreamEnded)
      else
        let (stream1, rendition) = getOrCreateRenditionLocked stream renditionID;
            store2 = AList.update streamID stream1 store1
        in if RenditionState.Ended rendition then (store2, Some ErrRenditionEnded)
           else if map_of (Segments rendition) (Sequence seg) \<noteq> None then (store2, None)
           else
             let seg1 = seg\<lparr>ReceivedAt := now\<rparr>;
                 rendition1 = rendition\<lparr>Segments :=
                     AList.update (Sequence seg) seg1 (Segments rendition)\<rparr>;
                 stream2 = stream1\<lparr>Renditions :=
                     AList.update renditionID rendition1 (Renditions stream1)\<rparr>
             in (AList.update streamID stream2 store2, None))"

text \<open>The zero value of \<^verbatim>\<open>Segment\<close>, which a Go map returns for a missing key.\<close>

definition zeroSegment :: "('d::zero) Segment" where
  "zeroSegment = \<lparr>Sequence = 0, Duration = 0, Path = [], ReceivedAt = 0\<rparr>"

definition segmentAt :: "(int64 \<times> ('d::zero) Segment) list \<Rightarrow> int64 \<Rightarrow> 'd Segment" where
  "segmentAt m seq = (case map_of m seq of Some seg \<Rightarrow> seg | None \<Rightarrow> zeroSegment)"

text \<open>
  \<^verbatim>\<open>GetRenditionSnapshot\<close> returns \<open>(segments, ended, ok)\<close>. The keys are collected,
  sorted as signed numbers, and each is looked up again. The slice sorted here holds
  plain numbers, and equal numbers are the same value: every sort gives the same slice.
\<close>

definition GetRenditionSnapshot ::
    "('d::zero) Store \<Rightarrow> StreamID \<Rightarrow> RenditionID \<Rightarrow> 'd Segment list \<times> bool \<times> bool" where
  "GetRenditionSnapshot store streamID renditionID =
     (case GetStream store streamID of
        None \<Rightarrow> ([], False, False)
      | Some stream \<Rightarrow>
          (case map_of (Renditions stream) renditionID of
             None \<Rightarrow> ([], False, False)
           | Some rendition \<Rightarrow>
               if length (Segments rendition) = 0
               then ([], RenditionState.Ended rendition, True)
               else
                 let sequences = sort_key sint (map fst (Segments rendition));
                     segments = map (segmentAt (Segments rendition)) sequences
                 in (segments, RenditionState.Ended rendition, True)))"

definition EndStream :: "'d Store \<Rightarrow> StreamID \<Rightarrow> 'd Store \<times> error option" where
  "EndStream store streamID =
     (case GetStream store streamID of
        None \<Rightarrow> (store, None)
      | Some stream \<Rightarrow>
          if StreamState.Ended stream then (store, None)
          else
            let stream1 = stream\<lparr>StreamState.Ended := True\<rparr>;
                stream2 = stream1\<lparr>Renditions :=
                    map (\<lambda>(rid, rendition). (rid, rendition\<lparr>RenditionState.Ended := True\<rparr>))
                      (Renditions stream1)\<rparr>
            in (AList.update streamID stream2 store, None))"

definition ActiveStreamCount :: "'d Store \<Rightarrow> int" where
  "ActiveStreamCount store =
     foldl (\<lambda>n sid. case GetStream store sid of
                      Some st \<Rightarrow> if \<not> StreamState.Ended st then n + 1 else n
                    | None \<Rightarrow> n)
       0 (ListStreamIDs store)"

section \<open>Service (NewService, GetPlaylist)\<close>

record Service =
  windowSize :: int

definition DefaultWindowSize :: int where
  "DefaultWindowSize = 6"

definition NewService :: "int \<Rightarrow> Service" where
  "NewService w = \<lparr>windowSize = (if w \<le> 0 then DefaultWindowSize else w)\<rparr>"

text \<open>
  \<^verbatim>\<open>GetPlaylist\<close> returns \<open>(m3u8, ok)\<close>, or the panic of the window selector. It passes
  the sort on to the selector.
\<close>

definition GetPlaylist ::
    "(('d::zero) Segment list \<Rightarrow> 'd Segment list) \<Rightarrow> 'd float_ops \<Rightarrow> Service \<Rightarrow> 'd Store
      \<Rightarrow> StreamID \<Rightarrow> RenditionID \<Rightarrow> panic + (string \<times> bool)" where
  "GetPlaylist sortSlice ops s store streamID renditionID =
     (let (segments, ended, ok) = GetRenditionSnapshot store streamID renditionID in
      if \<not> ok then Inr ([], False)
      else
        case contiguousVisibleSegments sortSlice segments (windowSize s) of
          Inl p \<Rightarrow> Inl p
        | Inr window \<Rightarrow> Inr (BuildLivePlaylist ops window ended, True))"

section \<open>Histories of registry operations\<close>

datatype 'd operation =
    OpRegisterSegment Time StreamID RenditionID "'d Segment"
  | OpEndStream StreamID
  | OpGetRenditionSnapshot StreamID RenditionID
  | OpActiveStreamCount

text \<open>The effect of one operation on the store; the two readers leave it as it is.\<close>

fun step :: "'d Store \<Rightarrow> 'd operation \<Rightarrow> 'd Store" where
  "step store (OpRegisterSegment now sid rid seg) = fst (RegisterSegment now store sid rid seg)"
| "step store (OpEndStream sid) = fst (EndStream store sid)"
| "step store (OpGetRenditionSnapshot sid rid) = store"
| "step store OpActiveStreamCount = store"

definition run :: "'d operation list \<Rightarrow> 'd Store" where
  "run ops = foldl step NewInMemoryStore ops"

section \<open>Observations and invariants of the registry\<close>

text \<open>
  What a caller can observe of the ended flags: a stream, or a rendition of a stream,
  is known and ended.
\<close>

definition streamEnded :: "'d Store \<Rightarrow> StreamID \<Rightarrow> bool" where
  "streamEnded store sid =
     (case GetStream store sid of Some st \<Rightarrow> StreamState.Ended st | None \<Rightarrow> False)"

definition renditionEnded :: "'d Store \<Rightarrow> StreamID \<Rightarrow> RenditionID \<Rightarrow> bool" where
  "renditionEnded store sid rid =
     (case GetStream store sid of
        Some st \<Rightarrow> (case map_of (Renditions st) rid of
                      Some r \<Rightarrow> RenditionState.Ended r | None \<Rightarrow> False)
      | None \<Rightarrow> False)"

text \<open>
  The cascade: every rendition of an ended stream is ended.
\<close>

definition endCascades :: "'d Store \<Rightarrow> bool" where
  "endCascades store =
     (\<forall>sid st. GetStream store sid = Some st \<longrightarrow> StreamState.Ended st \<longrightarrow>
        (\<forall>rid r. map_of (Renditions st) rid = Some r \<longrightarrow> RenditionState.Ended r))"

text \<open>
  The shape of a rendition's segment map in the registry: a Go map has one value per
  key, and \<^verbatim>\<open>RegisterSegment\<close> files each segment under its own sequence number.
\<close>

definition renditionWellFormed :: "'d RenditionState \<Rightarrow> bool" where
  "renditionWellFormed r =
     (distinct (map fst (Segments r))
      \<and> (\<forall>(k, seg) \<in> set (Segments r). Sequence seg = k))"

definition storeWellFormed :: "'d Store \<Rightarrow> bool" where
  "storeWellFormed store =
     (\<forall>sid st rid r. GetStream store sid = Some st \<longrightarrow>
        map_of (Renditions st) rid = Some r \<longrightarrow> renditionWellFormed r)"


section \<open>Examples\<close>

text \<open>
  Segments of two seconds with the paths of the test suite, and the history of the gap
  scenario: sequences 1, 2, 4 and 5 registered on stream \<open>s1\<close>, rendition \<open>720p\<close>.
\<close>

definition exampleSegment :: "int \<Rightarrow> int Segment" where
  "exampleSegment n =
     \<lparr>Sequence = word_of_int n, Duration = 20, Path = ''/'' @ showInt n @ ''.ts'',
      ReceivedAt = 0\<rparr>"

definition exampleGap :: "int Segment list" where
  "exampleGap = map exampleSegment [1, 2, 4, 5]"

definition exampleShuffled :: "int Segment list" where
  "exampleShuffled = map exampleSegment [5, 2, - 1, 1]"

definition exampleHealed :: "int Segment list" where
  "exampleHealed = map exampleSegment [1, 2, 3, 4, 5]"

definition register :: "int \<Rightarrow> int operation" where
  "register n = OpRegisterSegment 0 ''s1'' ''720p'' (exampleSegment n)"

definition gapHistory :: "int operation list" where
  "gapHistory = map register [1, 2, 4, 5]"

text \<open>
  The store after the gap history, live (\<open>False\<close>) and after \<^verbatim>\<open>EndStream\<close> (\<open>True\<close>).
\<close>

definition exampleRendition :: "bool \<Rightarrow> int RenditionState" where
  "exampleRendition e =
     \<lparr>RenditionState.ID = ''720p'',
      Segments = map (\<lambda>n. (word_of_int n, exampleSegment n)) [1, 2, 4, 5],
      Ended = e\<rparr>"

definition exampleStream :: "bool \<Rightarrow> int StreamState" where
  "exampleStream e =
     \<lparr>StreamState.ID = ''s1'', Renditions = [(''720p'', exampleRendition e)], Ended = e\<rparr>"

definition endedHistory :: "int operation list" where
  "endedHistory = gapHistory @ [OpEndStream ''s1'']"

definition laterHistory :: "int operation list" where
  "laterHistory =
     [register 3, OpGetRenditionSnapshot ''s1'' ''720p'', OpActiveStreamCount,
      OpEndStream ''s1'', OpRegisterSegment 1 ''s1'' ''480p'' (exampleSegment 9)]"

text \<open>Segments arriving out of order, one of them with a negative sequence number.\<close>

definition shuffledHistory :: "int operation list" where
  "shuffledHistory = map register [5, 2, - 1, 1]"

definition shuffledRendition :: "int RenditionState" where
  "shuffledRendition =
     \<lparr>RenditionState.ID = ''720p'',
      Segments = map (\<lambda>n. (word_of_int n, exampleSegment n)) [5, 2, - 1, 1],
      Ended = False\<rparr>"

definition shuffledStream :: "int StreamState" where
  "shuffledStream =
     \<lparr>StreamState.ID = ''s1'', Renditions = [(''720p'', shuffledRendition)], Ended = False\<rparr>"

text \<open>A second registration of sequence 1 with another duration and path.\<close>

definition duplicateSegment :: "int Segment" where
  "duplicateSegment = \<lparr>Sequence = 1, Duration = 99, Path = ''/other.ts'', ReceivedAt = 0\<rparr>"

text \<open>A segment whose path is the text of the end marker.\<close>

definition markerSegment :: "int Segment" where
  "markerSegment = \<lparr>Sequence = 1, Duration = 20, Path = ENDLIST, ReceivedAt = 0\<rparr>"

section \<open>The scanning loop\<close>

lemma contiguousRun_Cons: "\<exists>t. contiguousRun (x # xs) = x # t"
  by (cases xs) auto

lemma contiguousRun_nonempty: "xs \<noteq> [] \<Longrightarrow> contiguousRun xs \<noteq> []"
  by (metis contiguousRun_Cons neq_Nil_conv)

lemma contiguousRun_hd: "xs \<noteq> [] \<Longrightarrow> hd (contiguousRun xs) = hd xs"
  by (metis contiguousRun_Cons list.sel(1) neq_Nil_conv)

lemma contiguousRun_prefix: "prefix (contiguousRun xs) xs"
  by (induction xs rule: contiguousRun.induct) auto

lemma contiguousRun_successively:
  "successively (\<lambda>a b. Sequence b = Sequence a + 1) (contiguousRun xs)"
proof (induction xs rule: contiguousRun.induct)
  case (3 x y rest)
  obtain t where t: "contiguousRun (y # rest) = y # t"
    using contiguousRun_Cons by blast
  with 3 show ?case by (auto simp: successively_Cons)
qed auto

lemma scanLoop_from:
  "0 < i \<Longrightarrow> i \<le> length xs \<Longrightarrow>
   scanLoop xs i out = out @ tl (contiguousRun (drop (i - 1) xs))"
proof (induction "length xs - i" arbitrary: i out)
  case 0
  then have i: "i = length xs" by simp
  with 0 have "drop (i - 1) xs = [xs ! (i - 1)]"
    by (metis Cons_nth_drop_Suc Suc_pred' diff_less drop_all le_refl zero_less_one)
  with i show ?case by (simp add: scanLoop.simps)
next
  case (Suc n)
  then have lt: "i < length xs" by simp
  from Suc.prems lt have d1: "drop (i - 1) xs = xs ! (i - 1) # drop i xs"
    by (metis Cons_nth_drop_Suc Suc_pred' less_imp_diff_less)
  from lt have d2: "drop i xs = xs ! i # drop (Suc i) xs"
    by (simp add: Cons_nth_drop_Suc)
  show ?case
  proof (cases "Sequence (xs ! i) \<noteq> Sequence (xs ! (i - 1)) + 1")
    case True
    with lt Suc.prems d1 d2 show ?thesis
      by (subst scanLoop.simps) simp
  next
    case False
    have "scanLoop xs (i + 1) (out @ [xs ! i]) =
          (out @ [xs ! i]) @ tl (contiguousRun (drop ((i + 1) - 1) xs))"
      using Suc.hyps(1)[of "i + 1" "out @ [xs ! i]"] Suc.hyps(2) lt by simp
    moreover obtain t where t: "contiguousRun (drop i xs) = xs ! i # t"
      using contiguousRun_Cons d2 by metis
    ultimately show ?thesis
      using False lt Suc.prems d1 d2
      by (subst scanLoop.simps) simp
  qed
qed

lemma scanLoop_run: "scanLoop xs 0 [] = contiguousRun xs"
proof (cases xs)
  case Nil
  then show ?thesis by (simp add: scanLoop.simps)
next
  case (Cons x rest)
  obtain t where t: "contiguousRun (x # rest) = x # t"
    using contiguousRun_Cons by blast
  have "scanLoop xs 0 [] = scanLoop xs 1 [xs ! 0]"
    using Cons by (subst scanLoop.simps) simp
  also have "\<dots> = [xs ! 0] @ tl (contiguousRun (drop (1 - 1) xs))"
    by (rule scanLoop_from) (use Cons in auto)
  finally show ?thesis using Cons t by simp
qed

text \<open>
  Between neighbours in ascending order the wrapping successor is the exact successor.
\<close>

lemma sint_succ_exact:
  fixes a b :: int64
  assumes "b = a + 1" and "sint a \<le> sint b"
  shows "sint b = sint a + 1"
proof (cases "sint a + 1 < 2 ^ 63")
  case True
  have "- (2 ^ 63) \<le> sint a" using sint_ge[of a] by simp
  with True have "signed_take_bit 63 (sint a + 1) = sint a + 1"
    by (intro signed_take_bit_int_eq_self) auto
  with assms(1) show ?thesis by (simp add: sint_word_add)
next
  case False
  have "sint a < 2 ^ 63" using sint_lt[of a] by simp
  with False have a: "sint a = 2 ^ 63 - 1" by simp
  have "sint b = signed_take_bit 63 (sint a + 1)"
    using assms(1) by (simp add: sint_word_add)
  also have "\<dots> = - (2 ^ 63)" by (simp add: a signed_take_bit_eq_take_bit_minus take_bit_eq_mod)
  finally show ?thesis using assms(2) a by simp
qed

lemma sortsBySequence_stableSort: "sortsBySequence stableSort"
  by (simp add: sortsBySequence_def stableSort_def sort_key_id_if_sorted)

lemma sortsBySequence_length:
  "sortsBySequence sortSlice \<Longrightarrow> length (sortSlice xs) = length xs"
  unfolding sortsBySequence_def by (metis mset_eq_length)

lemma sortsBySequence_sorted:
  "sortsBySequence sortSlice \<Longrightarrow> sorted (map seqOf xs) \<Longrightarrow> sortSlice xs = xs"
  unfolding sortsBySequence_def by blast

lemma sortsBySequence_keys:
  assumes "sortsBySequence sortSlice"
  shows "map seqOf (sortSlice xs) = sort (map seqOf xs)"
proof -
  have "mset (map seqOf (sortSlice xs)) = mset (map seqOf xs)"
    using assms unfolding sortsBySequence_def by (metis mset_map)
  moreover have "sorted (map seqOf (sortSlice xs))"
    using assms unfolding sortsBySequence_def by blast
  ultimately show ?thesis by (metis properties_for_sort)
qed

lemma visible_window:
  assumes "sortsBySequence sortSlice" and "segs \<noteq> []" and "0 \<le> w"
  shows "contiguousVisibleSegments sortSlice segs w =
           Inr (contiguousRun (drop (length segs - nat w) (sortSlice segs)))"
proof -
  let ?n = "int (length (sortSlice segs))"
  have len: "length (sortSlice segs) = length segs"
    using assms(1) by (rule sortsBySequence_length)
  define start where "start = (if ?n > w then ?n - w else 0)"
  have st: "nat start = length segs - nat w" "0 \<le> start" "start \<le> ?n"
    using assms(3) by (auto simp: start_def len)
  have "contiguousVisibleSegments sortSlice segs w =
          (if start < 0 \<or> start > ?n then Inl SliceBoundsOutOfRange
           else Inr (scanLoop (drop (nat start) (sortSlice segs)) 0 []))"
    using assms(2) by (simp add: contiguousVisibleSegments_def Let_def start_def)
  also have "\<dots> = Inr (scanLoop (drop (nat start) (sortSlice segs)) 0 [])"
    using st(2,3) by simp
  finally show ?thesis by (simp add: st(1) scanLoop_run)
qed

text \<open>On a slice in ascending order every such sort gives the selector the same slice.\<close>

lemma visible_sorted:
  assumes "sortsBySequence sortSlice" and "sorted (map seqOf segs)"
  shows "contiguousVisibleSegments sortSlice segs w = contiguousVisibleSegments stableSort segs w"
  using sortsBySequence_sorted[OF assms] sortsBySequence_sorted[OF sortsBySequence_stableSort assms(2)]
  by (simp add: contiguousVisibleSegments_def)

lemma start_wrap:
  assumes "0 \<le> n" "n < 2 ^ 63" "- (2 ^ 63) \<le> w" "w < 2 ^ 63" "w < n"
  shows "(wrapInt (n - w) < 0 \<or> n < wrapInt (n - w)) = (w < 0)"
    and "0 \<le> w \<Longrightarrow> wrapInt (n - w) = n - w"
proof -
  show "0 \<le> w \<Longrightarrow> wrapInt (n - w) = n - w"
    using assms by (simp add: wrapInt_def)
  show "(wrapInt (n - w) < 0 \<or> n < wrapInt (n - w)) = (w < 0)"
  proof (cases "n - w < 2 ^ 63")
    case True
    then have "wrapInt (n - w) = n - w"
      using assms by (simp add: wrapInt_def)
    then show ?thesis using assms by auto
  next
    case False
    define x where "x = n - w - 2 ^ 63"
    have x: "0 \<le> x" "x < 2 ^ 63" using False assms by (auto simp: x_def)
    have "(n - w + 2 ^ 63) mod 2 ^ 64 = (x + 2 ^ 64) mod 2 ^ 64"
      by (simp add: x_def algebra_simps)
    also have "\<dots> = x" using x by simp
    finally have "wrapInt (n - w) < 0"
      using x by (simp add: wrapInt_def)
    moreover have "w < 0" using False assms by auto
    ultimately show ?thesis by simp
  qed
qed



section \<open>The registry: effect of the operations\<close>

lemmas registry_defs =
  RegisterSegment_def getOrCreateStreamLocked_def getOrCreateRenditionLocked_def
  GetStream_def SetStream_def EndStream_def

lemma RegisterSegment_stream_ended:
  assumes "GetStream s sid = Some st" and "StreamState.Ended st"
  shows "RegisterSegment now s sid rid seg = (s, Some ErrStreamEnded)"
  using assms by (simp add: registry_defs)

lemma RegisterSegment_rendition_ended:
  assumes "GetStream s sid = Some st" and "\<not> StreamState.Ended st"
    and "map_of (Renditions st) rid = Some r" and "RenditionState.Ended r"
  shows "RegisterSegment now s sid rid seg = (s, Some ErrRenditionEnded)"
  using assms by (simp add: registry_defs update_triv)

lemma RegisterSegment_duplicate:
  assumes "GetStream s sid = Some st" and "\<not> StreamState.Ended st"
    and "map_of (Renditions st) rid = Some r" and "\<not> RenditionState.Ended r"
    and "map_of (Segments r) (Sequence seg) = Some x"
  shows "RegisterSegment now s sid rid seg = (s, None)"
  using assms by (simp add: registry_defs update_triv)

lemma RegisterSegment_success_post:
  assumes "snd (RegisterSegment now s sid rid seg) = None"
  shows "\<exists>st r x. GetStream (fst (RegisterSegment now s sid rid seg)) sid = Some st
           \<and> \<not> StreamState.Ended st
           \<and> map_of (Renditions st) rid = Some r \<and> \<not> RenditionState.Ended r
           \<and> map_of (Segments r) (Sequence seg) = Some x"
  using assms
  by (auto simp: registry_defs Let_def update_conv' split: option.splits if_splits prod.splits)

lemma step_streamEnded:
  "streamEnded s sid \<Longrightarrow> streamEnded (step s op) sid"
  by (cases op)
     (auto simp: streamEnded_def registry_defs Let_def update_conv'
           split: option.splits if_splits prod.splits)

lemma step_renditionEnded:
  "renditionEnded s sid rid \<Longrightarrow> renditionEnded (step s op) sid rid"
  by (cases op)
     (auto simp: renditionEnded_def registry_defs Let_def update_conv' map_of_map
           split: option.splits if_splits prod.splits)

lemma steps_streamEnded:
  "streamEnded s sid \<Longrightarrow> streamEnded (foldl step s h) sid"
  by (induction h arbitrary: s) (auto intro: step_streamEnded)

lemma steps_renditionEnded:
  "renditionEnded s sid rid \<Longrightarrow> renditionEnded (foldl step s h) sid rid"
  by (induction h arbitrary: s) (auto intro: step_renditionEnded)

lemma endCascades_step: "endCascades s \<Longrightarrow> endCascades (step s op)"
proof (cases op)
  case (OpRegisterSegment now sid rid seg)
  assume inv: "endCascades s"
  show ?thesis
    unfolding endCascades_def
  proof (intro allI impI)
    fix sid' st' rid' r'
    assume a: "GetStream (step s op) sid' = Some st'" "StreamState.Ended st'"
      "map_of (Renditions st') rid' = Some r'"
    show "RenditionState.Ended r'"
    proof (cases "sid' = sid")
      case False
      then have "GetStream (step s op) sid' = GetStream s sid'"
        using OpRegisterSegment
        by (auto simp: registry_defs Let_def update_conv'
                 split: option.splits if_splits prod.splits)
      with a inv show ?thesis unfolding endCascades_def by metis
    next
      case True
      show ?thesis
      proof (cases "GetStream s sid")
        case None
        with a True OpRegisterSegment show ?thesis
          by (auto simp: registry_defs Let_def update_conv'
                   split: option.splits if_splits prod.splits)
      next
        case (Some st)
        show ?thesis
        proof (cases "StreamState.Ended st")
          case True
          with Some have "step s op = s"
            using OpRegisterSegment by (simp add: RegisterSegment_stream_ended)
          with a inv show ?thesis unfolding endCascades_def by metis
        next
          case False
          with Some a \<open>sid' = sid\<close> OpRegisterSegment show ?thesis
            by (auto simp: registry_defs Let_def update_conv'
                     split: option.splits if_splits prod.splits)
        qed
      qed
    qed
  qed
next
  case (OpEndStream sid)
  assume inv: "endCascades s"
  then show ?thesis
    using OpEndStream unfolding endCascades_def
    by (auto simp: registry_defs Let_def update_conv' map_of_map
             split: option.splits if_splits prod.splits)
qed auto

lemma endCascades_run: "endCascades (run h)"
proof -
  have "endCascades s \<Longrightarrow> endCascades (foldl step s h)" for s :: "'a Store"
    by (induction h arbitrary: s) (auto intro: endCascades_step)
  moreover have "endCascades (NewInMemoryStore :: 'a Store)"
    by (simp add: endCascades_def NewInMemoryStore_def GetStream_def)
  ultimately show ?thesis by (simp add: run_def)
qed

lemma run_append: "run (h @ h') = foldl step (run h) h'"
  by (simp add: run_def)

lemma EndStream_ends:
  "GetStream s sid = Some st \<Longrightarrow> streamEnded (fst (EndStream s sid)) sid"
  by (auto simp: streamEnded_def registry_defs Let_def update_conv')

lemma streamEnded_RegisterSegment:
  "streamEnded s sid \<Longrightarrow> RegisterSegment now s sid rid seg = (s, Some ErrStreamEnded)"
  by (auto simp: streamEnded_def split: option.splits intro: RegisterSegment_stream_ended)

lemma streamEnded_EndStream:
  "streamEnded s sid \<Longrightarrow> EndStream s sid = (s, None)"
  by (auto simp: streamEnded_def EndStream_def split: option.splits)

section \<open>The registry: shape of the segment maps\<close>

lemma update_fresh: "map_of al k = None \<Longrightarrow> AList.update k v al = al @ [(k, v)]"
  by (induction al) (auto split: if_splits)

lemma renditionWellFormed_insert:
  assumes "renditionWellFormed r" and "map_of (Segments r) (Sequence seg) = None"
  shows "renditionWellFormed
           (r\<lparr>Segments := AList.update (Sequence seg) (seg\<lparr>ReceivedAt := now\<rparr>) (Segments r)\<rparr>)"
  using assms
  by (auto simp: renditionWellFormed_def update_fresh map_of_eq_None_iff)

lemma renditionWellFormed_new:
  "renditionWellFormed \<lparr>RenditionState.ID = rid, Segments = [], Ended = False\<rparr>"
  by (simp add: renditionWellFormed_def)

lemma renditionWellFormed_Ended:
  "renditionWellFormed (r\<lparr>RenditionState.Ended := b\<rparr>) = renditionWellFormed r"
  by (simp add: renditionWellFormed_def)

lemma storeWellFormed_RegisterSegment:
  assumes "storeWellFormed s"
  shows "storeWellFormed (fst (RegisterSegment now s sid rid seg))"
  unfolding storeWellFormed_def
proof (intro allI impI)
  fix sid' st' rid' r'
  let ?s' = "fst (RegisterSegment now s sid rid seg)"
  assume a: "GetStream ?s' sid' = Some st'" "map_of (Renditions st') rid' = Some r'"
  have old: "renditionWellFormed r0"
    if "GetStream s sid0 = Some st0" "map_of (Renditions st0) rid0 = Some r0"
    for sid0 st0 rid0 r0
    using assms that unfolding storeWellFormed_def by blast
  show "renditionWellFormed r'"
  proof (cases "sid' = sid")
    case False
    then have "GetStream ?s' sid' = GetStream s sid'"
      by (auto simp: registry_defs Let_def update_conv'
               split: option.splits if_splits prod.splits)
    with a old show ?thesis by metis
  next
    case True
    show ?thesis
    proof (cases "GetStream s sid")
      case None
      with a True show ?thesis
        by (auto simp: registry_defs Let_def update_conv' renditionWellFormed_def
                 split: option.splits if_splits prod.splits)
    next
      case (Some st)
      show ?thesis
      proof (cases "map_of (Renditions st) rid")
        case None
        with Some a True old[OF Some] show ?thesis
          by (auto simp: registry_defs Let_def update_conv' renditionWellFormed_new
                   split: option.splits if_splits prod.splits)
             (simp add: renditionWellFormed_def)
      next
        case r: (Some r)
        have wf: "renditionWellFormed r" using old[OF Some r] .
        from Some r a True old[OF Some] wf
          renditionWellFormed_insert[OF wf, of seg now]
        show ?thesis
          by (auto simp: registry_defs Let_def update_conv' update_triv
                   split: option.splits if_splits prod.splits)
      qed
    qed
  qed
qed

lemma storeWellFormed_EndStream:
  assumes "storeWellFormed s"
  shows "storeWellFormed (fst (EndStream s sid))"
  using assms unfolding storeWellFormed_def
  by (auto simp: registry_defs Let_def update_conv' map_of_map renditionWellFormed_Ended
           split: option.splits if_splits prod.splits)

lemma storeWellFormed_step: "storeWellFormed s \<Longrightarrow> storeWellFormed (step s op)"
  by (cases op) (auto intro: storeWellFormed_RegisterSegment storeWellFormed_EndStream)

lemma storeWellFormed_run: "storeWellFormed (run h)"
proof -
  have "storeWellFormed s \<Longrightarrow> storeWellFormed (foldl step s h)" for s :: "'a Store"
    by (induction h arbitrary: s) (auto intro: storeWellFormed_step)
  moreover have "storeWellFormed (NewInMemoryStore :: 'a Store)"
    by (simp add: storeWellFormed_def NewInMemoryStore_def GetStream_def)
  ultimately show ?thesis by (simp add: run_def)
qed

lemma sint_inj: "inj (sint :: int64 \<Rightarrow> int)"
  by (rule injI) (simp add: signed_word_eqI)

lemma segmentAt_stored:
  assumes "distinct (map fst al)" and "(k, seg) \<in> set al"
  shows "segmentAt al k = seg"
  using assms by (simp add: segmentAt_def)

lemma snapshot_segments:
  fixes al :: "(int64 \<times> ('d::zero) Segment) list"
  assumes "distinct (map fst al)" and "\<forall>(k, seg) \<in> set al. Sequence seg = k"
  defines "segs \<equiv> map (segmentAt al) (sort_key sint (map fst al))"
  shows "mset segs = mset (map snd al)" and "sorted_wrt (<) (map seqOf segs)"
proof -
  have at: "segmentAt al (fst p) = snd p" if "p \<in> set al" for p
    using that segmentAt_stored[OF assms(1), of "fst p" "snd p"] by simp
  have "mset segs = mset (map (segmentAt al) (map fst al))"
    unfolding segs_def by (simp only: mset_map mset_sort)
  also have "map (segmentAt al) (map fst al) = map snd al"
    using at by simp
  finally show "mset segs = mset (map snd al)" .
  have key: "seqOf (segmentAt al k) = sint k" if "k \<in> set (map fst al)" for k
  proof -
    from that obtain seg where m: "(k, seg) \<in> set al" by auto
    then have "Sequence seg = k" using assms(2) by auto
    with segmentAt_stored[OF assms(1) m] show ?thesis by (simp add: seqOf_def)
  qed
  have "map seqOf segs = map sint (sort_key sint (map fst al))"
    unfolding segs_def using key by simp
  moreover have "sorted (map sint (sort_key sint (map fst al)))"
    by (rule sorted_sort_key)
  moreover have "distinct (map sint (sort_key sint (map fst al)))"
    using assms(1) sint_inj by (simp add: distinct_map inj_on_def inj_def)
  ultimately show "sorted_wrt (<) (map seqOf segs)"
    by (simp add: strict_sorted_iff)
qed

section \<open>The renderer: the last line\<close>

lemma ENDLIST_no_newline: "CHR ''\<newline>'' \<notin> set ENDLIST"
  by (simp add: ENDLIST_def)

lemma BuildLivePlaylist_ended:
  "BuildLivePlaylist ops segs ended =
     BuildLivePlaylist ops segs False @ (if ended then ENDLIST @ ''\<newline>'' else [])"
  by (simp add: BuildLivePlaylist_def Let_def split: list.splits)

lemma BuildLivePlaylist_last:
  assumes "segs \<noteq> []"
  shows "\<exists>z. BuildLivePlaylist ops segs False =
           z @ '','' @ (''\<newline>'' @ Path (last segs)) @ ''\<newline>''"
proof -
  let ?entry = "\<lambda>seg. (''#EXTINF:'' @ f_fmt1 ops (Duration seg) @ '',\<newline>'')
                                      @ Path seg @ ''\<newline>''"
  from assms have "segs = butlast segs @ [last segs]" by simp
  then have "concat (map ?entry segs) = concat (map ?entry (butlast segs)) @ ?entry (last segs)"
    by (metis (no_types, lifting) append_Nil2 concat.simps(1) concat.simps(2) concat_append list.simps(8) list.simps(9) map_append)
  moreover obtain seg0 rest where "segs = seg0 # rest" using assms by (cases segs) auto
  ultimately show ?thesis
    by (simp add: BuildLivePlaylist_def Let_def)
qed

lemma suffix_endlist_line:
  "suffix (''\<newline>'' @ ENDLIST) (z @ (''\<newline>'' @ p))
     \<longleftrightarrow> suffix (''\<newline>'' @ ENDLIST) (''\<newline>'' @ p)"
proof
  assume "suffix (''\<newline>'' @ ENDLIST) (z @ (''\<newline>'' @ p))"
  then consider "suffix (''\<newline>'' @ ENDLIST) (''\<newline>'' @ p)"
    | xs where "''\<newline>'' @ ENDLIST = xs @ (''\<newline>'' @ p)" "suffix xs z"
    unfolding suffix_append by blast
  then show "suffix (''\<newline>'' @ ENDLIST) (''\<newline>'' @ p)"
  proof cases
    case 1
    then show ?thesis .
  next
    case 2
    show ?thesis
    proof (cases xs)
      case Nil
      with 2 show ?thesis by simp
    next
      case (Cons c cs)
      with 2 have "ENDLIST = cs @ ''\<newline>'' @ p" by auto
      then have "CHR ''\<newline>'' \<in> set ENDLIST" by (metis append_Cons in_set_conv_decomp)
      with ENDLIST_no_newline show ?thesis by simp
    qed
  qed
next
  assume "suffix (''\<newline>'' @ ENDLIST) (''\<newline>'' @ p)"
  then show "suffix (''\<newline>'' @ ENDLIST) (z @ (''\<newline>'' @ p))"
    by (rule suffix_appendI)
qed

lemma endsWithEndlist_unended:
  "endsWithEndlist (BuildLivePlaylist ops segs False)
     \<longleftrightarrow> segs \<noteq> [] \<and> suffix (''\<newline>'' @ ENDLIST) (''\<newline>'' @ Path (last segs))"
proof (cases "segs = []")
  case True
  have "\<not> suffix (''\<newline>'' @ ENDLIST @ ''\<newline>'') (BuildLivePlaylist ops [] False)"
    by (simp add: BuildLivePlaylist_def ENDLIST_def suffix_def append_eq_Cons_conv)
  with True show ?thesis by (simp add: endsWithEndlist_def)
next
  case False
  then obtain z where z: "BuildLivePlaylist ops segs False =
           z @ '','' @ (''\<newline>'' @ Path (last segs)) @ ''\<newline>''"
    using BuildLivePlaylist_last by blast
  have "endsWithEndlist (BuildLivePlaylist ops segs False)
      \<longleftrightarrow> suffix ((''\<newline>'' @ ENDLIST) @ ''\<newline>'')
            (((z @ '','') @ (''\<newline>'' @ Path (last segs))) @ ''\<newline>'')"
    by (simp add: endsWithEndlist_def z)
  also have "\<dots> \<longleftrightarrow> suffix (''\<newline>'' @ ENDLIST) ((z @ '','') @ (''\<newline>'' @ Path (last segs)))"
    by (simp only: same_suffix_suffix)
  also have "\<dots> \<longleftrightarrow> suffix (''\<newline>'' @ ENDLIST) (''\<newline>'' @ Path (last segs))"
    by (rule suffix_endlist_line)
  finally show ?thesis using False by simp
qed

lemma BuildLivePlaylist_ends_newline:
  "\<exists>z. BuildLivePlaylist ops segs False = z @ ''\<newline>''"
proof (cases "segs = []")
  case True
  then show ?thesis by (simp add: BuildLivePlaylist_def)
next
  case False
  then show ?thesis using BuildLivePlaylist_last[OF False, of ops]
    by (metis append.assoc)
qed

lemma endsWithEndlist_ended:
  "endsWithEndlist (BuildLivePlaylist ops segs True)"
proof -
  obtain z where "BuildLivePlaylist ops segs False = z @ ''\<newline>''"
    using BuildLivePlaylist_ends_newline by blast
  then have "BuildLivePlaylist ops segs True = z @ (''\<newline>'' @ ENDLIST @ ''\<newline>'')"
    by (subst BuildLivePlaylist_ended) simp
  then show ?thesis by (simp add: endsWithEndlist_def suffix_def)
qed

section \<open>The service and the example histories\<close>


lemma run_gapHistory: "run gapHistory = [(''s1'', exampleStream False)]"
  by code_simp

lemma run_endedHistory: "run endedHistory = [(''s1'', exampleStream True)]"
  by code_simp

lemma run_shuffledHistory: "run shuffledHistory = [(''s1'', shuffledStream)]"
  by code_simp

lemma snapshot_gap:
  "GetRenditionSnapshot (run gapHistory) ''s1'' ''720p'' = (exampleGap, False, True)"
  by code_simp

lemma snapshot_healed:
  "GetRenditionSnapshot (run (gapHistory @ [register 3])) ''s1'' ''720p''
     = (exampleHealed, False, True)"
  by code_simp

lemma sorted_exampleGap: "sorted (map seqOf exampleGap)"
  by code_simp

lemma sorted_exampleHealed: "sorted (map seqOf exampleHealed)"
  by code_simp

lemma visible_gap:
  assumes "sortsBySequence sortSlice"
  shows "contiguousVisibleSegments sortSlice exampleGap 6 = Inr (map exampleSegment [1, 2])"
proof -
  have "contiguousVisibleSegments stableSort exampleGap 6 = Inr (map exampleSegment [1, 2])"
    by code_simp
  then show ?thesis by (simp only: visible_sorted[OF assms sorted_exampleGap])
qed

lemma visible_live_edge:
  assumes "sortsBySequence sortSlice"
  shows "contiguousVisibleSegments sortSlice exampleGap 2 = Inr (map exampleSegment [4, 5])"
proof -
  have "contiguousVisibleSegments stableSort exampleGap 2 = Inr (map exampleSegment [4, 5])"
    by code_simp
  then show ?thesis by (simp only: visible_sorted[OF assms sorted_exampleGap])
qed

lemma visible_healed:
  assumes "sortsBySequence sortSlice"
  shows "contiguousVisibleSegments sortSlice exampleHealed 6 = Inr exampleHealed"
proof -
  have "contiguousVisibleSegments stableSort exampleHealed 6 = Inr exampleHealed"
    by code_simp
  then show ?thesis by (simp only: visible_sorted[OF assms sorted_exampleHealed])
qed

section \<open>Window selection: the claims\<close>

text \<open>
  C1. For every segment list sorted ascending by sequence and every positive window
  size, the selector of the serving path returns a subsequence of its input in which
  each element's sequence is exactly one more than its predecessor's (as numbers,
  without wrap-around), of length at most the window size.
\<close>

theorem contiguousVisibleSegments_no_gap_bounded:
  assumes "sortsBySequence sortSlice" and "sorted (map seqOf segs)" and "0 < w"
  shows "\<exists>visible. contiguousVisibleSegments sortSlice segs w = Inr visible
           \<and> subseq visible segs
           \<and> (\<forall>i. Suc i < length visible \<longrightarrow>
                  seqOf (visible ! Suc i) = seqOf (visible ! i) + 1)
           \<and> int (length visible) \<le> w"
proof (cases "segs = []")
  case True
  then show ?thesis using assms(3) by (simp add: contiguousVisibleSegments_def)
next
  case False
  define windowed where "windowed = drop (length segs - nat w) segs"
  define visible where "visible = contiguousRun windowed"
  have srt: "sortSlice segs = segs"
    using assms(1,2) by (rule sortsBySequence_sorted)
  have res: "contiguousVisibleSegments sortSlice segs w = Inr visible"
    using visible_window[OF assms(1) False, of w] assms(3)
    by (simp add: srt visible_def windowed_def)
  have pre: "prefix visible windowed"
    unfolding visible_def by (rule contiguousRun_prefix)
  have "suffix windowed segs"
    unfolding windowed_def by (rule suffix_drop)
  then have sub: "subseq visible segs"
    using pre by (meson prefix_imp_subseq suffix_imp_subseq subseq_order.order_trans)
  have "length visible \<le> length windowed"
    using pre by (rule prefix_length_le)
  also have "int (length windowed) \<le> w"
    using assms(3) by (simp add: windowed_def)
  finally have len: "int (length visible) \<le> w" by simp
  have "sorted (map seqOf windowed)"
    unfolding windowed_def using assms(2) by (simp add: drop_map[symmetric])
  then have "sorted (map seqOf visible)"
    using pre by (metis prefix_def map_append sorted_append)
  then have asc: "seqOf (visible ! i) \<le> seqOf (visible ! Suc i)" if "Suc i < length visible" for i
    using that by (simp add: sorted_iff_nth_Suc)
  have adj: "Sequence (visible ! Suc i) = Sequence (visible ! i) + 1"
    if "Suc i < length visible" for i
    using contiguousRun_successively[of windowed] that
    by (simp add: visible_def successively_conv_nth)
  have "seqOf (visible ! Suc i) = seqOf (visible ! i) + 1" if "Suc i < length visible" for i
    using sint_succ_exact[OF adj[OF that]] asc[OF that] by (simp add: seqOf_def)
  with res sub len show ?thesis by blast
qed

theorem contiguousVisibleSegments_no_gap_bounded_witness:
  "sortsBySequence (stableSort :: int Segment list \<Rightarrow> int Segment list)
   \<and> sorted (map seqOf exampleGap) \<and> (0::int) < 6
   \<and> contiguousVisibleSegments stableSort exampleGap 6 = Inr (map exampleSegment [1, 2])
   \<and> (\<exists>visible. contiguousVisibleSegments stableSort exampleGap 6 = Inr visible
           \<and> subseq visible exampleGap
           \<and> (\<forall>i. Suc i < length visible \<longrightarrow>
                  seqOf (visible ! Suc i) = seqOf (visible ! i) + 1)
           \<and> int (length visible) \<le> 6)"
proof -
  have h: "sorted (map seqOf exampleGap)" by code_simp
  have v: "contiguousVisibleSegments stableSort exampleGap 6 = Inr (map exampleSegment [1, 2])"
    by code_simp
  from contiguousVisibleSegments_no_gap_bounded[OF sortsBySequence_stableSort h, of 6]
    sortsBySequence_stableSort[where ?'a = int] h v
  show ?thesis by simp
qed

text \<open>
  C10. For every non-empty segment list and every window size of at least 1 the
  selector's result is non-empty: the first element of the candidate window (the last
  \<open>w\<close> elements of the sorted slice) is always kept, and its sequence number is the
  one at that place among the sequence numbers in ascending order, whatever the sort
  does with segments of equal sequence.
\<close>

theorem contiguousVisibleSegments_nonempty:
  assumes "sortsBySequence sortSlice" and "segs \<noteq> []" and "1 \<le> w"
  shows "\<exists>visible. contiguousVisibleSegments sortSlice segs w = Inr visible
           \<and> visible \<noteq> []
           \<and> hd visible = hd (drop (length segs - nat w) (sortSlice segs))
           \<and> seqOf (hd visible) = sort (map seqOf segs) ! (length segs - nat w)"
proof -
  let ?k = "length segs - nat w"
  let ?w = "drop ?k (sortSlice segs)"
  have len: "length (sortSlice segs) = length segs"
    using assms(1) by (rule sortsBySequence_length)
  have k: "?k < length (sortSlice segs)" using assms(2,3) len by (cases segs) auto
  then have ne: "?w \<noteq> []" by simp
  have "hd ?w = sortSlice segs ! ?k" using k by (rule hd_drop_conv_nth)
  then have "seqOf (hd ?w) = map seqOf (sortSlice segs) ! ?k" using k by simp
  then have key: "seqOf (hd ?w) = sort (map seqOf segs) ! ?k"
    by (simp only: sortsBySequence_keys[OF assms(1)])
  show ?thesis
    using visible_window[OF assms(1,2), of w] assms(3)
      contiguousRun_nonempty[OF ne] contiguousRun_hd[OF ne] key by simp
qed

theorem contiguousVisibleSegments_nonempty_witness:
  "sortsBySequence (stableSort :: int Segment list \<Rightarrow> int Segment list)
   \<and> exampleShuffled \<noteq> [] \<and> (1::int) \<le> 2
   \<and> map seqOf exampleShuffled = [5, 2, - 1, 1]
   \<and> contiguousVisibleSegments stableSort exampleShuffled 2 = Inr [exampleSegment 2]
   \<and> (\<exists>visible. contiguousVisibleSegments stableSort exampleShuffled 2 = Inr visible
           \<and> visible \<noteq> []
           \<and> hd visible = exampleSegment 2
           \<and> seqOf (hd visible) = 2)"
proof -
  have h: "exampleShuffled \<noteq> []" by code_simp
  have m: "map seqOf exampleShuffled = [5, 2, - 1, 1]" by code_simp
  have v: "contiguousVisibleSegments stableSort exampleShuffled 2 = Inr [exampleSegment 2]"
    by code_simp
  have d: "hd (drop (length exampleShuffled - nat 2) (stableSort exampleShuffled))
             = exampleSegment 2"
    by code_simp
  have s: "sort (map seqOf exampleShuffled) ! (length exampleShuffled - nat 2) = 2"
    by code_simp
  from contiguousVisibleSegments_nonempty[OF sortsBySequence_stableSort h, of 2]
  obtain visible where
    r: "contiguousVisibleSegments stableSort exampleShuffled 2 = Inr visible"
    and ne: "visible \<noteq> []"
    and hdv: "hd visible
               = hd (drop (length exampleShuffled - nat 2) (stableSort exampleShuffled))"
    and sq: "seqOf (hd visible)
               = sort (map seqOf exampleShuffled) ! (length exampleShuffled - nat 2)"
    by auto
  from hdv have hdv': "hd visible = exampleSegment 2" by (simp only: d)
  from sq have sq': "seqOf (hd visible) = 2" by (simp only: s)
  from sortsBySequence_stableSort[where ?'a = int] h m v r ne hdv' sq'
  show ?thesis by auto
qed




text \<open>
  C9. The two selectors are not equivalent: on the sorted list 1, 2, 4, 5 with window
  size 2 the history-anchored one returns 1, 2 and the live-edge one returns 4, 5.
  \<^verbatim>\<open>GetPlaylist\<close> renders the result of the live-edge selector on the snapshot, in
  every state; in the example that is not the rendering of the other selector's result.
\<close>

theorem window_strategies_differ:
  assumes "sortsBySequence sortSlice"
  shows "sorted (map seqOf exampleGap)
   \<and> contiguousSlidingWindow exampleGap 2 = map exampleSegment [1, 2]
   \<and> contiguousVisibleSegments sortSlice exampleGap 2 = Inr (map exampleSegment [4, 5])
   \<and> contiguousVisibleSegments sortSlice exampleGap 2
        \<noteq> Inr (contiguousSlidingWindow exampleGap 2)
   \<and> GetRenditionSnapshot (run gapHistory) ''s1'' ''720p'' = (exampleGap, False, True)
   \<and> GetPlaylist sortSlice tenths_ops (NewService 2) (run gapHistory) ''s1'' ''720p''
        = Inr (BuildLivePlaylist tenths_ops (map exampleSegment [4, 5]) False, True)
   \<and> GetPlaylist sortSlice tenths_ops (NewService 2) (run gapHistory) ''s1'' ''720p''
        \<noteq> Inr (BuildLivePlaylist tenths_ops (contiguousSlidingWindow exampleGap 2) False, True)
   \<and> GetPlaylist sortSlice ops s store sid rid
        = (case GetRenditionSnapshot store sid rid of
             (segments, ended, ok) \<Rightarrow>
               if ok
               then map_sum id (\<lambda>window. (BuildLivePlaylist ops window ended, True))
                      (contiguousVisibleSegments sortSlice segments (windowSize s))
               else Inr ([], False))"
proof -
  have general: "GetPlaylist sortSlice ops s store sid rid
        = (case GetRenditionSnapshot store sid rid of
             (segments, ended, ok) \<Rightarrow>
               if ok
               then map_sum id (\<lambda>window. (BuildLivePlaylist ops window ended, True))
                      (contiguousVisibleSegments sortSlice segments (windowSize s))
               else Inr ([], False))"
    by (simp add: GetPlaylist_def split: prod.splits sum.splits)
  have w: "windowSize (NewService 2) = 2" by code_simp
  have sliding: "contiguousSlidingWindow exampleGap 2 = map exampleSegment [1, 2]"
    by code_simp
  have live: "contiguousVisibleSegments sortSlice exampleGap 2 = Inr (map exampleSegment [4, 5])"
    using assms by (rule visible_live_edge)
  have neq: "map exampleSegment [4, 5] \<noteq> map exampleSegment [1, 2 :: int]" by code_simp
  have differ: "contiguousVisibleSegments sortSlice exampleGap 2
        \<noteq> Inr (contiguousSlidingWindow exampleGap 2)"
    using neq by (auto simp: live sliding)
  have playlist: "GetPlaylist sortSlice tenths_ops (NewService 2) (run gapHistory) ''s1'' ''720p''
        = Inr (BuildLivePlaylist tenths_ops (map exampleSegment [4, 5]) False, True)"
    by (simp add: GetPlaylist_def snapshot_gap live w)
  have texts: "BuildLivePlaylist tenths_ops (map exampleSegment [4, 5]) False
        \<noteq> BuildLivePlaylist tenths_ops (map exampleSegment [1, 2]) False"
    by code_simp
  have other: "GetPlaylist sortSlice tenths_ops (NewService 2) (run gapHistory) ''s1'' ''720p''
        \<noteq> Inr (BuildLivePlaylist tenths_ops (contiguousSlidingWindow exampleGap 2) False, True)"
    using texts by (auto simp: playlist sliding)
  from sorted_exampleGap sliding live differ snapshot_gap playlist other general
  show ?thesis by blast
qed

theorem window_strategies_differ_witness:
  "sortsBySequence (stableSort :: int Segment list \<Rightarrow> int Segment list)
   \<and> contiguousSlidingWindow exampleGap 2 = map exampleSegment [1, 2]
   \<and> contiguousVisibleSegments stableSort exampleGap 2 = Inr (map exampleSegment [4, 5])
   \<and> GetPlaylist stableSort tenths_ops (NewService 2) (run gapHistory) ''s1'' ''720p''
        = Inr (''#EXTM3U\<newline>#EXT-X-VERSION:3\<newline>#EXT-X-TARGETDURATION:2\<newline>#EXT-X-MEDIA-SEQUENCE:4\<newline>\<newline>#EXTINF:2.0,\<newline>/4.ts\<newline>#EXTINF:2.0,\<newline>/5.ts\<newline>'',
               True)"
proof -
  have t: "BuildLivePlaylist tenths_ops (map exampleSegment [4, 5]) False =
    ''#EXTM3U\<newline>#EXT-X-VERSION:3\<newline>#EXT-X-TARGETDURATION:2\<newline>#EXT-X-MEDIA-SEQUENCE:4\<newline>\<newline>#EXTINF:2.0,\<newline>/4.ts\<newline>#EXTINF:2.0,\<newline>/5.ts\<newline>''"
    by code_simp
  note th = window_strategies_differ
               [OF sortsBySequence_stableSort, of tenths_ops "NewService 2" "run gapHistory"
                   "''s1''" "''720p''"]
  from th have a: "contiguousSlidingWindow exampleGap 2 = map exampleSegment [1, 2]"
    and b: "contiguousVisibleSegments stableSort exampleGap 2 = Inr (map exampleSegment [4, 5])"
    and c: "GetPlaylist stableSort tenths_ops (NewService 2) (run gapHistory) ''s1'' ''720p''
        = Inr (BuildLivePlaylist tenths_ops (map exampleSegment [4, 5]) False, True)"
    by blast+
  from c have c': "GetPlaylist stableSort tenths_ops (NewService 2) (run gapHistory) ''s1'' ''720p''
        = Inr (''#EXTM3U\<newline>#EXT-X-VERSION:3\<newline>#EXT-X-TARGETDURATION:2\<newline>#EXT-X-MEDIA-SEQUENCE:4\<newline>\<newline>#EXTINF:2.0,\<newline>/4.ts\<newline>#EXTINF:2.0,\<newline>/5.ts\<newline>'',
               True)"
    by (simp only: t)
  from sortsBySequence_stableSort[where ?'a = int] a b c' show ?thesis by blast
qed

section \<open>The gap scenario\<close>

text \<open>
  C2. With window size 6, after sequences 1, 2, 4 and 5 are registered on a fresh
  stream and rendition, \<^verbatim>\<open>GetPlaylist\<close> renders exactly the segments 1 and 2; after
  sequence 3 is registered it renders all the registered segments, 1 to 5. The claim
  says that six become visible: five are registered, and five are shown.
\<close>

theorem gap_scenario_visible:
  assumes "sortsBySequence sortSlice"
  shows "contiguousVisibleSegments sortSlice
     (fst (GetRenditionSnapshot (run gapHistory) ''s1'' ''720p''))
     (windowSize (NewService 6))
     = Inr (map exampleSegment [1, 2])
   \<and> GetPlaylist sortSlice ops (NewService 6) (run gapHistory) ''s1'' ''720p''
     = Inr (BuildLivePlaylist ops (map exampleSegment [1, 2]) False, True)
   \<and> BuildLivePlaylist tenths_ops (map exampleSegment [1, 2]) False =
       ''#EXTM3U\<newline>#EXT-X-VERSION:3\<newline>#EXT-X-TARGETDURATION:2\<newline>#EXT-X-MEDIA-SEQUENCE:1\<newline>\<newline>#EXTINF:2.0,\<newline>/1.ts\<newline>#EXTINF:2.0,\<newline>/2.ts\<newline>''
   \<and> map seqOf exampleHealed = [1, 2, 3, 4, 5]
   \<and> contiguousVisibleSegments sortSlice
     (fst (GetRenditionSnapshot (run (gapHistory @ [register 3])) ''s1'' ''720p''))
     (windowSize (NewService 6))
     = Inr exampleHealed
   \<and> GetPlaylist sortSlice ops (NewService 6) (run (gapHistory @ [register 3])) ''s1'' ''720p''
     = Inr (BuildLivePlaylist ops exampleHealed False, True)"
proof -
  have w: "windowSize (NewService 6) = 6" by code_simp
  note gap = visible_gap[OF assms] and healed = visible_healed[OF assms]
  have "GetPlaylist sortSlice ops (NewService 6) (run gapHistory) ''s1'' ''720p''
     = Inr (BuildLivePlaylist ops (map exampleSegment [1, 2]) False, True)"
    by (simp add: GetPlaylist_def snapshot_gap gap w)
  moreover have
    "GetPlaylist sortSlice ops (NewService 6) (run (gapHistory @ [register 3])) ''s1'' ''720p''
     = Inr (BuildLivePlaylist ops exampleHealed False, True)"
    by (simp add: GetPlaylist_def snapshot_healed healed w)
  moreover have "BuildLivePlaylist tenths_ops (map exampleSegment [1, 2]) False =
       ''#EXTM3U\<newline>#EXT-X-VERSION:3\<newline>#EXT-X-TARGETDURATION:2\<newline>#EXT-X-MEDIA-SEQUENCE:1\<newline>\<newline>#EXTINF:2.0,\<newline>/1.ts\<newline>#EXTINF:2.0,\<newline>/2.ts\<newline>''"
    by code_simp
  moreover have "map seqOf exampleHealed = [1, 2, 3, 4, 5]" by code_simp
  moreover have "contiguousVisibleSegments sortSlice
     (fst (GetRenditionSnapshot (run gapHistory) ''s1'' ''720p''))
     (windowSize (NewService 6))
     = Inr (map exampleSegment [1, 2])"
    by (simp only: snapshot_gap fst_conv w gap)
  moreover have "contiguousVisibleSegments sortSlice
     (fst (GetRenditionSnapshot (run (gapHistory @ [register 3])) ''s1'' ''720p''))
     (windowSize (NewService 6))
     = Inr exampleHealed"
    by (simp only: snapshot_healed fst_conv w healed)
  ultimately show ?thesis by blast
qed

theorem gap_scenario_visible_witness:
  "sortsBySequence (stableSort :: int Segment list \<Rightarrow> int Segment list)
   \<and> GetPlaylist stableSort tenths_ops (NewService 6) (run gapHistory) ''s1'' ''720p''
     = Inr (''#EXTM3U\<newline>#EXT-X-VERSION:3\<newline>#EXT-X-TARGETDURATION:2\<newline>#EXT-X-MEDIA-SEQUENCE:1\<newline>\<newline>#EXTINF:2.0,\<newline>/1.ts\<newline>#EXTINF:2.0,\<newline>/2.ts\<newline>'',
            True)
   \<and> GetPlaylist stableSort tenths_ops (NewService 6) (run (gapHistory @ [register 3]))
        ''s1'' ''720p''
     = Inr (BuildLivePlaylist tenths_ops exampleHealed False, True)
   \<and> map seqOf exampleHealed = [1, 2, 3, 4, 5]"
proof -
  note th = gap_scenario_visible[OF sortsBySequence_stableSort, of tenths_ops]
  from th have t: "BuildLivePlaylist tenths_ops (map exampleSegment [1, 2]) False =
       ''#EXTM3U\<newline>#EXT-X-VERSION:3\<newline>#EXT-X-TARGETDURATION:2\<newline>#EXT-X-MEDIA-SEQUENCE:1\<newline>\<newline>#EXTINF:2.0,\<newline>/1.ts\<newline>#EXTINF:2.0,\<newline>/2.ts\<newline>''"
    and a: "GetPlaylist stableSort tenths_ops (NewService 6) (run gapHistory) ''s1'' ''720p''
     = Inr (BuildLivePlaylist tenths_ops (map exampleSegment [1, 2]) False, True)"
    and b: "GetPlaylist stableSort tenths_ops (NewService 6) (run (gapHistory @ [register 3]))
        ''s1'' ''720p''
     = Inr (BuildLivePlaylist tenths_ops exampleHealed False, True)"
    and c: "map seqOf exampleHealed = [1, 2, 3, 4, 5]"
    by blast+
  from a have a': "GetPlaylist stableSort tenths_ops (NewService 6) (run gapHistory) ''s1'' ''720p''
     = Inr (''#EXTM3U\<newline>#EXT-X-VERSION:3\<newline>#EXT-X-TARGETDURATION:2\<newline>#EXT-X-MEDIA-SEQUENCE:1\<newline>\<newline>#EXTINF:2.0,\<newline>/1.ts\<newline>#EXTINF:2.0,\<newline>/2.ts\<newline>'',
            True)"
    by (simp only: t)
  from sortsBySequence_stableSort[where ?'a = int] a' b c show ?thesis by blast
qed

theorem gap_scenario_five_not_six_counterexample:
  "contiguousVisibleSegments stableSort
     (fst (GetRenditionSnapshot (run (gapHistory @ [register 3])) ''s1'' ''720p''))
     (windowSize (NewService 6))
     = Inr exampleHealed
   \<and> map seqOf exampleHealed = [1, 2, 3, 4, 5]
   \<and> length exampleHealed \<noteq> 6"
  by code_simp

section \<open>Registry: the claims\<close>

text \<open>
  C4. A registration for a sequence number that the rendition already holds leaves
  the store as it is, in every state: the first registration's segment stays. It
  returns no error exactly when neither the stream nor the rendition is ended, and
  \<^verbatim>\<open>ErrStreamEnded\<close> when the stream is ended. After a registration that succeeded, a
  second one with the same sequence number (whatever its duration and path)
  succeeds and changes nothing: registering twice is registering once.
\<close>

theorem duplicate_registration_first_write_wins:
  "(GetStream s sid = Some st \<and> map_of (Renditions st) rid = Some r
      \<and> map_of (Segments r) (Sequence seg) = Some x \<longrightarrow>
        fst (RegisterSegment now s sid rid seg) = s
        \<and> (snd (RegisterSegment now s sid rid seg) = None
             \<longleftrightarrow> \<not> StreamState.Ended st \<and> \<not> RenditionState.Ended r)
        \<and> (StreamState.Ended st \<longrightarrow>
              snd (RegisterSegment now s sid rid seg) = Some ErrStreamEnded))
   \<and> (snd (RegisterSegment now s sid rid seg) = None \<and> Sequence seg' = Sequence seg \<longrightarrow>
        RegisterSegment now' (fst (RegisterSegment now s sid rid seg)) sid rid seg'
          = (fst (RegisterSegment now s sid rid seg), None))"
proof (intro conjI impI)
  assume a: "GetStream s sid = Some st \<and> map_of (Renditions st) rid = Some r
      \<and> map_of (Segments r) (Sequence seg) = Some x"
  consider "StreamState.Ended st"
    | "\<not> StreamState.Ended st" "RenditionState.Ended r"
    | "\<not> StreamState.Ended st" "\<not> RenditionState.Ended r" by blast
  then have "fst (RegisterSegment now s sid rid seg) = s
        \<and> (snd (RegisterSegment now s sid rid seg) = None
             \<longleftrightarrow> \<not> StreamState.Ended st \<and> \<not> RenditionState.Ended r)
        \<and> (StreamState.Ended st \<longrightarrow>
              snd (RegisterSegment now s sid rid seg) = Some ErrStreamEnded)"
  proof cases
    case 1
    with a show ?thesis by (simp add: RegisterSegment_stream_ended)
  next
    case 2
    with a show ?thesis by (simp add: RegisterSegment_rendition_ended)
  next
    case 3
    with a show ?thesis by (simp add: RegisterSegment_duplicate)
  qed
  then show "fst (RegisterSegment now s sid rid seg) = s"
    and "snd (RegisterSegment now s sid rid seg) = None
             \<longleftrightarrow> \<not> StreamState.Ended st \<and> \<not> RenditionState.Ended r"
    and "StreamState.Ended st \<Longrightarrow>
              snd (RegisterSegment now s sid rid seg) = Some ErrStreamEnded"
    by blast+
next
  assume b: "snd (RegisterSegment now s sid rid seg) = None \<and> Sequence seg' = Sequence seg"
  then obtain st r x where
    "GetStream (fst (RegisterSegment now s sid rid seg)) sid = Some st"
    "\<not> StreamState.Ended st" "map_of (Renditions st) rid = Some r"
    "\<not> RenditionState.Ended r" "map_of (Segments r) (Sequence seg') = Some x"
    using RegisterSegment_success_post[of now s sid rid seg] by auto
  then show "RegisterSegment now' (fst (RegisterSegment now s sid rid seg)) sid rid seg'
          = (fst (RegisterSegment now s sid rid seg), None)"
    by (rule RegisterSegment_duplicate)
qed


theorem duplicate_registration_first_write_wins_witness:
  "GetStream (run [register 1]) ''s1'' = Some (the (GetStream (run [register 1]) ''s1''))
   \<and> Sequence duplicateSegment = Sequence (exampleSegment 1)
   \<and> RegisterSegment 7 (run [register 1]) ''s1'' ''720p'' duplicateSegment
        = (run [register 1], None)
   \<and> GetRenditionSnapshot (run [register 1]) ''s1'' ''720p''
        = ([exampleSegment 1], False, True)
   \<and> snd (RegisterSegment 0 [] ''s1'' ''720p'' (exampleSegment 1)) = None
   \<and> RegisterSegment 7 (fst (RegisterSegment 0 [] ''s1'' ''720p'' (exampleSegment 1)))
        ''s1'' ''720p'' duplicateSegment
        = (fst (RegisterSegment 0 [] ''s1'' ''720p'' (exampleSegment 1)), None)"
proof -
  let ?s = "run [register 1] :: int Store"
  let ?st = "the (GetStream ?s ''s1'')"
  let ?r = "the (map_of (Renditions ?st) ''720p'')"
  have h1: "GetStream ?s ''s1'' = Some ?st" by code_simp
  have h2: "map_of (Renditions ?st) ''720p'' = Some ?r" by code_simp
  have h3: "map_of (Segments ?r) (Sequence duplicateSegment) = Some (exampleSegment 1)"
    by code_simp
  have h4: "\<not> StreamState.Ended ?st" "\<not> RenditionState.Ended ?r" by code_simp+
  have h5: "snd (RegisterSegment 0 [] ''s1'' ''720p'' (exampleSegment 1)) = None"
    by code_simp
  have h6: "Sequence duplicateSegment = Sequence (exampleSegment 1)" by code_simp
  have h7: "GetRenditionSnapshot ?s ''s1'' ''720p'' = ([exampleSegment 1], False, True)"
    by code_simp
  have a: "RegisterSegment 7 ?s ''s1'' ''720p'' duplicateSegment = (?s, None)"
    using duplicate_registration_first_write_wins
            [of ?s "''s1''" ?st "''720p''" ?r duplicateSegment "exampleSegment 1" 7]
          h1 h2 h3 h4 by (metis prod.collapse)
  have b: "RegisterSegment 7 (fst (RegisterSegment 0 [] ''s1'' ''720p'' (exampleSegment 1)))
        ''s1'' ''720p'' duplicateSegment
        = (fst (RegisterSegment 0 [] ''s1'' ''720p'' (exampleSegment 1)), None)"
    using duplicate_registration_first_write_wins
            [of "[]" "''s1''" _ "''720p''" _ "exampleSegment 1" _ 0 duplicateSegment 7] h5 h6
    by blast
  from h1 h6 a h7 h5 b show ?thesis by blast
qed

theorem duplicate_registration_after_end_counterexample:
  "GetRenditionSnapshot (run [register 1, OpEndStream ''s1'']) ''s1'' ''720p''
     = ([exampleSegment 1], True, True)
   \<and> RegisterSegment 7 (run [register 1, OpEndStream ''s1'']) ''s1'' ''720p''
        (exampleSegment 1)
     = (run [register 1, OpEndStream ''s1''], Some ErrStreamEnded)"
  by code_simp


text \<open>
  C5. Along every history of registry operations from the empty store: a stream that
  is ended stays ended, a rendition that is ended stays ended, and in every state
  reached each rendition of an ended stream is ended.
\<close>

theorem ended_monotonic_and_cascades:
  "(streamEnded (run h) sid \<longrightarrow> streamEnded (run (h @ h')) sid)
   \<and> (renditionEnded (run h) sid rid \<longrightarrow> renditionEnded (run (h @ h')) sid rid)
   \<and> (\<forall>st r. GetStream (run h) sid = Some st \<and> StreamState.Ended st
               \<and> map_of (Renditions st) rid = Some r \<longrightarrow> RenditionState.Ended r)"
  using endCascades_run[of h] steps_streamEnded[of "run h" sid h']
    steps_renditionEnded[of "run h" sid rid h']
  unfolding endCascades_def run_append by blast


theorem ended_monotonic_and_cascades_witness:
  "streamEnded (run endedHistory) ''s1''
   \<and> streamEnded (run (endedHistory @ laterHistory)) ''s1''
   \<and> renditionEnded (run endedHistory) ''s1'' ''720p''
   \<and> renditionEnded (run (endedHistory @ laterHistory)) ''s1'' ''720p''
   \<and> GetStream (run endedHistory) ''s1'' = Some (exampleStream True)
   \<and> StreamState.Ended (exampleStream True)
   \<and> map_of (Renditions (exampleStream True)) ''720p'' = Some (exampleRendition True)
   \<and> RenditionState.Ended (exampleRendition True)"
proof -
  have h1: "streamEnded (run endedHistory) ''s1''" by code_simp
  have h2: "renditionEnded (run endedHistory) ''s1'' ''720p''" by code_simp
  have h3: "GetStream (run endedHistory) ''s1'' = Some (exampleStream True)"
    by (simp add: run_endedHistory GetStream_def)
  have h4: "StreamState.Ended (exampleStream True)" by code_simp
  have h5: "map_of (Renditions (exampleStream True)) ''720p'' = Some (exampleRendition True)"
    by code_simp
  from ended_monotonic_and_cascades[of endedHistory "''s1''" laterHistory "''720p''"]
    h1 h2 h3 h4 h5
  show ?thesis by blast
qed


text \<open>
  C6. After \<^verbatim>\<open>EndStream\<close> on an existing stream, and after any further operations,
  \<^verbatim>\<open>RegisterSegment\<close> for that stream fails with \<^verbatim>\<open>ErrStreamEnded\<close> for every rendition
  and segment and leaves the store as it is, and a repeated \<^verbatim>\<open>EndStream\<close> succeeds and
  changes nothing. \<^verbatim>\<open>EndStream\<close> never returns an error, and on an unknown stream it
  changes nothing.
\<close>

theorem endStream_terminal:
  "(GetStream s sid = Some st \<longrightarrow>
      RegisterSegment now (foldl step (fst (EndStream s sid)) h) sid rid seg
        = (foldl step (fst (EndStream s sid)) h, Some ErrStreamEnded)
      \<and> EndStream (foldl step (fst (EndStream s sid)) h) sid
        = (foldl step (fst (EndStream s sid)) h, None))
   \<and> snd (EndStream s sid) = None
   \<and> (GetStream s sid = None \<longrightarrow> EndStream s sid = (s, None))"
proof (intro conjI impI)
  assume "GetStream s sid = Some st"
  then have e: "streamEnded (foldl step (fst (EndStream s sid)) h) sid"
    by (intro steps_streamEnded EndStream_ends)
  show "RegisterSegment now (foldl step (fst (EndStream s sid)) h) sid rid seg
        = (foldl step (fst (EndStream s sid)) h, Some ErrStreamEnded)"
    using e by (rule streamEnded_RegisterSegment)
  show "EndStream (foldl step (fst (EndStream s sid)) h) sid
        = (foldl step (fst (EndStream s sid)) h, None)"
    using e by (rule streamEnded_EndStream)
next
  show "snd (EndStream s sid) = None"
    by (simp add: EndStream_def Let_def split: option.splits)
next
  assume "GetStream s sid = None"
  then show "EndStream s sid = (s, None)" by (simp add: EndStream_def)
qed


theorem endStream_terminal_witness:
  "GetStream (run gapHistory) ''s1'' = Some (exampleStream False)
   \<and> fst (EndStream (run gapHistory) ''s1'') = [(''s1'', exampleStream True)]
   \<and> RegisterSegment 1 (foldl step (fst (EndStream (run gapHistory) ''s1'')) laterHistory)
         ''s1'' ''480p'' (exampleSegment 3)
       = (foldl step (fst (EndStream (run gapHistory) ''s1'')) laterHistory,
          Some ErrStreamEnded)
   \<and> EndStream (foldl step (fst (EndStream (run gapHistory) ''s1'')) laterHistory) ''s1''
       = (foldl step (fst (EndStream (run gapHistory) ''s1'')) laterHistory, None)
   \<and> GetStream (run gapHistory) ''s2'' = None
   \<and> EndStream (run gapHistory) ''s2'' = (run gapHistory, None)"
proof -
  have h1: "GetStream (run gapHistory) ''s1'' = Some (exampleStream False)"
    by (simp add: run_gapHistory GetStream_def)
  have h2: "GetStream (run gapHistory) ''s2'' = None"
    by (simp add: run_gapHistory GetStream_def)
  have h3: "fst (EndStream (run gapHistory) ''s1'') = [(''s1'', exampleStream True)]"
    by code_simp
  from endStream_terminal
         [of "run gapHistory" "''s1''" "exampleStream False" 1 laterHistory "''480p''"
             "exampleSegment 3"]
       endStream_terminal[of "run gapHistory" "''s2''"] h1 h2 h3
  show ?thesis by blast
qed


text \<open>
  C7. \<^verbatim>\<open>GetRenditionSnapshot\<close> reports not found exactly when the stream or the
  rendition is unknown. Otherwise it returns the rendition's ended flag and the
  stored segments, each once, in strictly ascending order of sequence. The segment
  map is taken as the registry builds it (\<open>renditionWellFormed\<close>: one value per key,
  each segment under its own sequence number), which \<open>storeWellFormed_run\<close> shows of
  every state that the operations reach.
\<close>

theorem GetRenditionSnapshot_sorted_complete:
  fixes s :: "('d::zero) Store"
  shows
  "(snd (snd (GetRenditionSnapshot s sid rid)) = False
      \<longleftrightarrow> GetStream s sid = None
          \<or> (\<exists>st. GetStream s sid = Some st \<and> map_of (Renditions st) rid = None))
   \<and> (\<forall>st r. GetStream s sid = Some st \<and> map_of (Renditions st) rid = Some r
         \<and> renditionWellFormed r \<longrightarrow>
         (\<exists>segs. GetRenditionSnapshot s sid rid = (segs, RenditionState.Ended r, True)
            \<and> mset segs = mset (map snd (Segments r))
            \<and> sorted_wrt (<) (map seqOf segs)))"
proof (intro conjI allI impI)
  show "snd (snd (GetRenditionSnapshot s sid rid)) = False
      \<longleftrightarrow> GetStream s sid = None
          \<or> (\<exists>st. GetStream s sid = Some st \<and> map_of (Renditions st) rid = None)"
    by (auto simp: GetRenditionSnapshot_def Let_def split: option.splits)
next
  fix st r
  assume a: "GetStream s sid = Some st \<and> map_of (Renditions st) rid = Some r
         \<and> renditionWellFormed r"
  show "\<exists>segs. GetRenditionSnapshot s sid rid = (segs, RenditionState.Ended r, True)
            \<and> mset segs = mset (map snd (Segments r))
            \<and> sorted_wrt (<) (map seqOf segs)"
  proof (cases "Segments r = []")
    case True
    with a show ?thesis by (simp add: GetRenditionSnapshot_def)
  next
    case False
    from a have wf: "distinct (map fst (Segments r))"
      "\<forall>(k, seg) \<in> set (Segments r). Sequence seg = k"
      by (simp_all add: renditionWellFormed_def)
    from a False have "GetRenditionSnapshot s sid rid =
        (map (segmentAt (Segments r)) (sort_key sint (map fst (Segments r))),
         RenditionState.Ended r, True)"
      by (simp add: GetRenditionSnapshot_def Let_def)
    with snapshot_segments[OF wf] show ?thesis by simp
  qed
qed


theorem GetRenditionSnapshot_sorted_complete_witness:
  "GetStream (run shuffledHistory) ''s1'' = Some shuffledStream
   \<and> map_of (Renditions shuffledStream) ''720p'' = Some shuffledRendition
   \<and> renditionWellFormed shuffledRendition
   \<and> map (sint \<circ> fst) (Segments shuffledRendition) = [5, 2, - 1, 1]
   \<and> GetRenditionSnapshot (run shuffledHistory) ''s1'' ''720p''
        = (map exampleSegment [- 1, 1, 2, 5], False, True)
   \<and> snd (snd (GetRenditionSnapshot (run shuffledHistory) ''s1'' ''1080p'')) = False
   \<and> snd (snd (GetRenditionSnapshot (run shuffledHistory) ''s2'' ''720p'')) = False
   \<and> (\<exists>segs. GetRenditionSnapshot (run shuffledHistory) ''s1'' ''720p''
                 = (segs, RenditionState.Ended shuffledRendition, True)
            \<and> mset segs = mset (map snd (Segments shuffledRendition))
            \<and> sorted_wrt (<) (map seqOf segs))"
proof -
  have h1: "GetStream (run shuffledHistory) ''s1'' = Some shuffledStream"
    by (simp add: run_shuffledHistory GetStream_def)
  have h2: "map_of (Renditions shuffledStream) ''720p'' = Some shuffledRendition"
    by code_simp
  have h3: "renditionWellFormed shuffledRendition" by code_simp
  have h4: "map (sint \<circ> fst) (Segments shuffledRendition) = [5, 2, - 1, 1]" by code_simp
  have h5: "GetRenditionSnapshot (run shuffledHistory) ''s1'' ''720p''
        = (map exampleSegment [- 1, 1, 2, 5], False, True)" by code_simp
  have h6: "map_of (Renditions shuffledStream) ''1080p'' = None" by code_simp
  have h7: "GetStream (run shuffledHistory) ''s2'' = None"
    by (simp add: run_shuffledHistory GetStream_def)
  from GetRenditionSnapshot_sorted_complete[of "run shuffledHistory" "''s1'' " "''720p''"]
       GetRenditionSnapshot_sorted_complete[of "run shuffledHistory" "''s1'' " "''1080p''"]
       GetRenditionSnapshot_sorted_complete[of "run shuffledHistory" "''s2'' " "''720p''"]
       h1 h2 h3 h4 h5 h6 h7
  show ?thesis by blast
qed


section \<open>Renderer: the claim\<close>

text \<open>
  C8. Rendering no segments gives exactly the header, the version line, target
  duration 1 and media sequence 0, followed by the end marker if and only if the
  ended flag is set. For every list of segments, the playlist's last line is the end
  marker if and only if the ended flag is set, unless the last segment's path is
  itself the text of the end marker or ends with a newline followed by it: paths are
  written as they are.
\<close>

theorem BuildLivePlaylist_empty_and_endlist:
  "BuildLivePlaylist ops [] ended =
     ''#EXTM3U\<newline>#EXT-X-VERSION:3\<newline>#EXT-X-TARGETDURATION:1\<newline>#EXT-X-MEDIA-SEQUENCE:0\<newline>''
       @ (if ended then ''#EXT-X-ENDLIST\<newline>'' else [])
   \<and> (segs = [] \<or> \<not> suffix (''\<newline>'' @ ENDLIST) (''\<newline>'' @ Path (last segs))
        \<longrightarrow> (endsWithEndlist (BuildLivePlaylist ops segs ended) \<longleftrightarrow> ended))"
proof (intro conjI impI)
  show "BuildLivePlaylist ops [] ended =
     ''#EXTM3U\<newline>#EXT-X-VERSION:3\<newline>#EXT-X-TARGETDURATION:1\<newline>#EXT-X-MEDIA-SEQUENCE:0\<newline>''
       @ (if ended then ''#EXT-X-ENDLIST\<newline>'' else [])"
    by (simp add: BuildLivePlaylist_def ENDLIST_def)
next
  assume "segs = [] \<or> \<not> suffix (''\<newline>'' @ ENDLIST) (''\<newline>'' @ Path (last segs))"
  then show "endsWithEndlist (BuildLivePlaylist ops segs ended) \<longleftrightarrow> ended"
    using endsWithEndlist_unended[of ops segs] endsWithEndlist_ended[of ops segs]
    by (cases ended) auto
qed


theorem BuildLivePlaylist_empty_and_endlist_witness:
  "\<not> suffix (''\<newline>'' @ ENDLIST) (''\<newline>'' @ Path (last exampleGap))
   \<and> endsWithEndlist (BuildLivePlaylist tenths_ops exampleGap True)
   \<and> \<not> endsWithEndlist (BuildLivePlaylist tenths_ops exampleGap False)
   \<and> BuildLivePlaylist tenths_ops [] True =
       ''#EXTM3U\<newline>#EXT-X-VERSION:3\<newline>#EXT-X-TARGETDURATION:1\<newline>#EXT-X-MEDIA-SEQUENCE:0\<newline>#EXT-X-ENDLIST\<newline>''"
proof -
  have h: "\<not> suffix (''\<newline>'' @ ENDLIST) (''\<newline>'' @ Path (last exampleGap))"
    by code_simp
  from BuildLivePlaylist_empty_and_endlist[of tenths_ops True exampleGap]
       BuildLivePlaylist_empty_and_endlist[of tenths_ops False exampleGap] h
  show ?thesis by simp
qed

theorem BuildLivePlaylist_endlist_path_counterexample:
  "BuildLivePlaylist tenths_ops [markerSegment] False =
     ''#EXTM3U\<newline>#EXT-X-VERSION:3\<newline>#EXT-X-TARGETDURATION:2\<newline>#EXT-X-MEDIA-SEQUENCE:1\<newline>\<newline>#EXTINF:2.0,\<newline>#EXT-X-ENDLIST\<newline>''
   \<and> endsWithEndlist (BuildLivePlaylist tenths_ops [markerSegment] False)"
  by code_simp


end
